theory Spec2Isabelle
  imports Main "HOL-Library.AList"
begin

section \<open>Python values read from the two JSON payloads\<close>

text \<open>
  The script handles decoded JSON. The scalar values are modelled: null, booleans,
  integers and strings. Floating point numbers and nested containers are left out; like
  every value here other than the empty string, their \<open>str()\<close> is a non-empty text.
  Strings are lists of 8-bit characters, read as the code points below 256.
\<close>

datatype pyval = PNone | PBool bool | PInt int | PStr string

text \<open>Truth value testing, as \<open>if x\<close> and \<open>not x\<close> do it.\<close>

fun truthy :: "pyval \<Rightarrow> bool" where
  "truthy PNone = False"
| "truthy (PBool b) = b"
| "truthy (PInt i) = (i \<noteq> 0)"
| "truthy (PStr s) = (s \<noteq> [])"

definition digit_char :: "nat \<Rightarrow> char" where
  "digit_char d = ''0123456789'' ! d"

fun digits :: "nat \<Rightarrow> string" where
  "digits n = (if n < 10 then [digit_char n] else digits (n div 10) @ [digit_char (n mod 10)])"

definition str_int :: "int \<Rightarrow> string" where
  "str_int i = (if i < 0 then CHR ''-'' # digits (nat (- i)) else digits (nat i))"

text \<open>The builtin \<open>str()\<close>.\<close>

fun py_str :: "pyval \<Rightarrow> string" where
  "py_str PNone = ''None''"
| "py_str (PBool b) = (if b then ''True'' else ''False'')"
| "py_str (PInt i) = str_int i"
| "py_str (PStr s) = s"

text \<open>
  \<open>str.isspace\<close> on the code points below 256: tab, line feed, vertical tab, form feed,
  carriage return, the four separators 28 to 31, space, next line (133) and the
  no-break space (160).
\<close>

definition isspace :: "char \<Rightarrow> bool" where
  "isspace c = (of_char c \<in> {9, 10, 11, 12, 13, 28, 29, 30, 31, 32, 133, 160 :: nat})"

text \<open>\<open>str.strip()\<close> with no argument: whitespace is removed at both ends.\<close>

definition strip :: "string \<Rightarrow> string" where
  "strip s = rev (dropWhile isspace (rev (dropWhile isspace s)))"

section \<open>The two datasets\<close>


text \<open>
  The same record once \<open>prop.get("property_address", "").strip()\<close> has not raised: the
  address is a string, or the key is absent. \<open>property_id\<close> stays any value (the script
  passes it through \<open>str()\<close>).
\<close>

record appfolio_prop =
  property_id :: "pyval option"
  property_address :: "string option"

text \<open>
  A row of the \<open>properties\<close> table as selected by \<open>id,address,appfolio_id,active\<close>.
  The index built from the rows is declared \<open>Dict[str, Dict]\<close>, so \<open>appfolio_id\<close> is
  null (\<open>None\<close>) or a string. \<open>active\<close> is only tested for truth.
\<close>

record store_row =
  row_id :: nat
  address :: pyval
  appfolio_id :: "string option"
  active :: pyval

text \<open>The answer of a \<open>requests\<close> call: a \<open>RequestException\<close> or the decoded body.\<close>

datatype 'a response = RequestException | Response 'a

text \<open>
  A write sent to the store's \<open>properties\<close> resource: a POST with its JSON payload, or a
  PATCH with its query parameters and its JSON payload.
\<close>

datatype http_request =
    Post "(string \<times> pyval) list"
  | Patch "(string \<times> string) list" "(string \<times> pyval) list"

section \<open>Fetching\<close>


text \<open>
  One step of the dict comprehension
  \<open>{p["appfolio_id"]: p for p in properties if p.get("appfolio_id")}\<close>:
  a row whose \<open>appfolio_id\<close> is falsy is left out; a key seen before keeps its place
  and takes the new row.
\<close>

definition indexed_step ::
  "(string \<times> store_row) list \<Rightarrow> store_row \<Rightarrow> (string \<times> store_row) list" where
  "indexed_step d p =
     (case appfolio_id p of
        None \<Rightarrow> d
      | Some k \<Rightarrow> if k = [] then d else AList.update k p d)"

definition indexed :: "store_row list \<Rightarrow> (string \<times> store_row) list" where
  "indexed properties = foldl indexed_step [] properties"

definition fetch_supabase_properties ::
  "store_row list response \<Rightarrow> nat + (string \<times> store_row) list" where
  "fetch_supabase_properties resp =
     (case resp of
        RequestException \<Rightarrow> Inl 1
      | Response properties \<Rightarrow> Inr (indexed properties))"

section \<open>Writing\<close>

text \<open>
  The requests the two writers build. Headers carry only credentials and content
  negotiation and are left out.
\<close>

definition insert_request :: "string \<Rightarrow> string \<Rightarrow> http_request" where
  "insert_request aid addr =
     Post [(''address'', PStr addr), (''appfolio_id'', PStr aid), (''active'', PBool True)]"

definition update_request :: "string \<Rightarrow> bool \<Rightarrow> http_request" where
  "update_request aid act =
     Patch [(''appfolio_id'', ''eq.'' @ aid)] [(''active'', PBool act)]"

text \<open>
  The network decides whether a write succeeds: \<open>net n\<close> is the fate of the write
  number \<open>n\<close> of the run (counted from 0). A writer appends its request to the list
  of requests sent so far and returns \<open>True\<close> on success, \<open>False\<close> on a
  \<open>RequestException\<close>.
\<close>

definition insert_property ::
  "(nat \<Rightarrow> bool) \<Rightarrow> string \<Rightarrow> string \<Rightarrow> http_request list \<Rightarrow> bool \<times> http_request list" where
  "insert_property net aid addr w = (net (length w), w @ [insert_request aid addr])"

definition update_property_status ::
  "(nat \<Rightarrow> bool) \<Rightarrow> string \<Rightarrow> bool \<Rightarrow> http_request list \<Rightarrow> bool \<times> http_request list" where
  "update_property_status net aid act w = (net (length w), w @ [update_request aid act])"

section \<open>The sync\<close>

text \<open>
  The state of \<open>sync_properties\<close> after the two fetches: the five counters of
  \<open>stats\<close>, the set \<open>appfolio_ids\<close>, and the requests sent so far.
\<close>

record sync_state =
  added :: nat
  reactivated :: nat
  deactivated :: nat
  unchanged :: nat
  errors :: nat
  appfolio_ids :: "string set"
  requests :: "http_request list"

definition init_state :: sync_state where
  "init_state = \<lparr>added = 0, reactivated = 0, deactivated = 0, unchanged = 0, errors = 0,
     appfolio_ids = {}, requests = []\<rparr>"

text \<open>
  \<open>str(prop.get("property_id"))\<close> and \<open>prop.get("property_address", "").strip()\<close>, on a
  record whose address is a string or absent. What the script does on any other address
  is in \<open>first_loop\<close> below.
\<close>

definition prop_appfolio_id :: "appfolio_prop \<Rightarrow> string" where
  "prop_appfolio_id prop = py_str (case property_id prop of None \<Rightarrow> PNone | Some v \<Rightarrow> v)"

definition prop_address :: "appfolio_prop \<Rightarrow> string" where
  "prop_address prop = strip (case property_address prop of None \<Rightarrow> [] | Some a \<Rightarrow> a)"

text \<open>
  The body of the first loop, for one record of the AppFolio list whose address is a
  string or absent.
\<close>

definition process_prop ::
  "(nat \<Rightarrow> bool) \<Rightarrow> (string \<times> store_row) list \<Rightarrow> sync_state \<Rightarrow> appfolio_prop \<Rightarrow> sync_state" where
  "process_prop net supabase_properties st prop =
     (let aid = prop_appfolio_id prop; addr = prop_address prop in
      if aid = [] \<or> addr = [] then st
      else
        let st1 = st\<lparr>appfolio_ids := insert aid (appfolio_ids st)\<rparr> in
        (case map_of supabase_properties aid of
           Some existing \<Rightarrow>
             if \<not> truthy (active existing) then
               (case update_property_status net aid True (requests st1) of
                  (ok, w) \<Rightarrow>
                    if ok then st1\<lparr>requests := w, reactivated := reactivated st1 + 1\<rparr>
                    else st1\<lparr>requests := w, errors := errors st1 + 1\<rparr>)
             else st1\<lparr>unchanged := unchanged st1 + 1\<rparr>
         | None \<Rightarrow>
             (case insert_property net aid addr (requests st1) of
                (ok, w) \<Rightarrow>
                  if ok then st1\<lparr>requests := w, added := added st1 + 1\<rparr>
                  else st1\<lparr>requests := w, errors := errors st1 + 1\<rparr>)))"

text \<open>The body of the second loop, for one item of the store index.\<close>

definition deactivate_item ::
  "(nat \<Rightarrow> bool) \<Rightarrow> sync_state \<Rightarrow> string \<times> store_row \<Rightarrow> sync_state" where
  "deactivate_item net st item =
     (if fst item \<notin> appfolio_ids st \<and> truthy (active (snd item)) then
        (case update_property_status net (fst item) False (requests st) of
           (ok, w) \<Rightarrow>
             if ok then st\<lparr>requests := w, deactivated := deactivated st + 1\<rparr>
             else st\<lparr>requests := w, errors := errors st + 1\<rparr>)
      else st)"

text \<open>
  The two loops of \<open>sync_properties\<close>, from the fresh counters on, over records whose
  address is a string or absent. On such a list the run of the script is this function
  (lemmas \<open>sync_loops_typed\<close> and \<open>sync_loops_to_json\<close> below); on any other list the
  run stops in the first loop, as \<open>first_loop\<close> says.
\<close>

definition reconcile ::
  "(nat \<Rightarrow> bool) \<Rightarrow> appfolio_prop list \<Rightarrow> (string \<times> store_row) list \<Rightarrow> sync_state" where
  "reconcile net appfolio_properties supabase_properties =
     foldl (deactivate_item net)
       (foldl (process_prop net supabase_properties) init_state appfolio_properties)
       supabase_properties"










section \<open>The operations of a run, as a function of the two datasets\<close>

text \<open>
  The definitions of this section are not part of the script. They describe, without the
  counters and without the network, which requests a run sends; the lemmas below prove
  that \<open>reconcile\<close> sends exactly these. \<open>Insert\<close> and \<open>SetActive\<close> stand for a call of
  \<open>insert_property\<close> and of \<open>update_property_status\<close>.
\<close>

datatype operation = Insert string string | SetActive string bool

text \<open>
  The request that the call sends.
\<close>

fun request_of :: "operation \<Rightarrow> http_request" where
  "request_of (Insert aid addr) = insert_request aid addr"
| "request_of (SetActive aid act) = update_request aid act"

text \<open>
  A record passes the check of the first loop: neither \<open>str(property_id)\<close> nor the
  stripped address is empty.
\<close>

definition valid_prop :: "appfolio_prop \<Rightarrow> bool" where
  "valid_prop prop = (prop_appfolio_id prop \<noteq> [] \<and> prop_address prop \<noteq> [])"

text \<open>
  The set \<open>appfolio_ids\<close> at the end of the first loop.
\<close>

definition valid_ids :: "appfolio_prop list \<Rightarrow> string set" where
  "valid_ids props = prop_appfolio_id ` set (filter valid_prop props)"

text \<open>
  The calls made for one record of the AppFolio list.
\<close>

definition prop_ops :: "(string \<times> store_row) list \<Rightarrow> appfolio_prop \<Rightarrow> operation list" where
  "prop_ops idx prop =
     (if valid_prop prop then
        (case map_of idx (prop_appfolio_id prop) of
           Some existing \<Rightarrow>
             if truthy (active existing) then [] else [SetActive (prop_appfolio_id prop) True]
         | None \<Rightarrow> [Insert (prop_appfolio_id prop) (prop_address prop)])
      else [])"

text \<open>
  The calls made for one item of the store index, given the set \<open>appfolio_ids\<close>.
\<close>

definition item_ops :: "string set \<Rightarrow> string \<times> store_row \<Rightarrow> operation list" where
  "item_ops S item =
     (if fst item \<notin> S \<and> truthy (active (snd item)) then [SetActive (fst item) False] else [])"

definition planned_ops :: "appfolio_prop list \<Rightarrow> (string \<times> store_row) list \<Rightarrow> operation list" where
  "planned_ops props idx =
     concat (map (prop_ops idx) props) @ concat (map (item_ops (valid_ids props)) idx)"

text \<open>
  The request is an insert of the id \<open>k\<close>: a POST whose payload carries \<open>k\<close> as
  \<open>appfolio_id\<close>.
\<close>

definition is_insert_for :: "string \<Rightarrow> http_request \<Rightarrow> bool" where
  "is_insert_for k r =
     (case r of
        Post payload \<Rightarrow> map_of payload ''appfolio_id'' = Some (PStr k)
      | Patch params payload \<Rightarrow> False)"

text \<open>
  The ids that receive an insert, a reactivation and a deactivation among the requests.
\<close>

definition insert_ids :: "http_request list \<Rightarrow> string set" where
  "insert_ids reqs = {k. \<exists>r \<in> set reqs. is_insert_for k r}"

definition reactivate_ids :: "http_request list \<Rightarrow> string set" where
  "reactivate_ids reqs = {k. update_request k True \<in> set reqs}"

definition deactivate_ids :: "http_request list \<Rightarrow> string set" where
  "deactivate_ids reqs = {k. update_request k False \<in> set reqs}"

text \<open>
  The JSON body of a request.
\<close>

definition request_payload :: "http_request \<Rightarrow> (string \<times> pyval) list" where
  "request_payload r = (case r of Post payload \<Rightarrow> payload | Patch params payload \<Rightarrow> payload)"

section \<open>Write failures and configuration\<close>

text \<open>
  The number of writes that fail among the writes number \<open>m\<close> to \<open>n - 1\<close>.
\<close>

definition write_failures :: "(nat \<Rightarrow> bool) \<Rightarrow> nat \<Rightarrow> nat \<Rightarrow> nat" where
  "write_failures net m n = length (filter (\<lambda>i. \<not> net i) [m..<n])"

text \<open>
  The counters that a write increments.
\<close>

definition writes_counted :: "sync_state \<Rightarrow> nat" where
  "writes_counted st = added st + reactivated st + deactivated st + errors st"




section \<open>Lookup in the index\<close>

text \<open>
  The last row of the list that carries the id \<open>k\<close>.
\<close>

fun lookup_last :: "string \<Rightarrow> store_row list \<Rightarrow> store_row option" where
  "lookup_last k [] = None"
| "lookup_last k (r # rs) =
     (case lookup_last k rs of
        Some r' \<Rightarrow> Some r'
      | None \<Rightarrow> if appfolio_id r = Some k then Some r else None)"

text \<open>
  \<open>p.get("appfolio_id")\<close> is truthy: the id is neither null nor the empty string.
\<close>

definition has_appfolio_id :: "store_row \<Rightarrow> bool" where
  "has_appfolio_id r = (case appfolio_id r of None \<Rightarrow> False | Some k \<Rightarrow> k \<noteq> [])"

text \<open>
  The key under which a row with an id is stored.
\<close>

definition key_of :: "store_row \<Rightarrow> string" where
  "key_of r = (case appfolio_id r of None \<Rightarrow> [] | Some k \<Rightarrow> k)"

section \<open>The destination store\<close>

text \<open>
  The \<open>properties\<close> table is a remote service, reached over HTTP; no code of it is
  part of the script. Section 4.4 of the specification says what a write does there. The
  model applies a request column by column, so what a request changes follows from the
  payload that the script builds.
\<close>

text \<open>
  Modelled from the spec: the store's handling of a payload is not code of the script.
  One column of a payload written to a row. The payloads of the script name the
  columns \<open>active\<close>, \<open>address\<close> and \<open>appfolio_id\<close>.
\<close>

definition set_column :: "store_row \<Rightarrow> string \<times> pyval \<Rightarrow> store_row" where
  "set_column r kv =
     (if fst kv = ''active'' then r\<lparr>active := snd kv\<rparr>
      else if fst kv = ''address'' then r\<lparr>address := snd kv\<rparr>
      else if fst kv = ''appfolio_id'' then
        r\<lparr>appfolio_id := (case snd kv of PNone \<Rightarrow> None | v \<Rightarrow> Some (py_str v))\<rparr>
      else r)"

text \<open>
  Modelled from the spec: the row that the store creates is not built by the script.
  A fresh row: the store assigns the internal id, every other column starts as null.
\<close>

definition new_row :: "store_row list \<Rightarrow> store_row" where
  "new_row rows = \<lparr>row_id = Suc (foldl max 0 (map row_id rows)), address = PNone,
     appfolio_id = None, active = PNone\<rparr>"

text \<open>
  Modelled from the spec: the store's row filter is not code of the script.
  The filter of a PATCH: every parameter is an equality on \<open>appfolio_id\<close>.
\<close>

definition row_matches :: "(string \<times> string) list \<Rightarrow> store_row \<Rightarrow> bool" where
  "row_matches params r =
     list_all (\<lambda>p. fst p = ''appfolio_id'' \<and>
        (case appfolio_id r of None \<Rightarrow> False | Some s \<Rightarrow> snd p = ''eq.'' @ s)) params"

text \<open>
  Modelled from the spec: the store's reaction to a write is not code of the script
  (section 4.4: an insert creates a new record with \<open>active\<close> true; a status update
  changes only the flag of the row matching the given external id).
  A POST appends a row built from its payload; a PATCH writes its payload to every row
  that matches its filter.
\<close>

fun store_apply :: "store_row list \<Rightarrow> http_request \<Rightarrow> store_row list" where
  "store_apply rows (Post payload) = rows @ [foldl set_column (new_row rows) payload]"
| "store_apply rows (Patch params payload) =
     map (\<lambda>r. if row_matches params r then foldl set_column r payload else r) rows"

text \<open>
  Modelled from the spec: a write that fails is taken to leave the store as it was.
  The requests of a run that the network let through.
\<close>

definition succeeded :: "(nat \<Rightarrow> bool) \<Rightarrow> http_request list \<Rightarrow> http_request list" where
  "succeeded net reqs = map snd (filter (\<lambda>ir. net (fst ir)) (enumerate 0 reqs))"

text \<open>
  The table after a run: the requests that succeeded, applied in order.
\<close>

definition store_after :: "(nat \<Rightarrow> bool) \<Rightarrow> store_row list \<Rightarrow> http_request list \<Rightarrow> store_row list" where
  "store_after net rows reqs = foldl store_apply rows (succeeded net reqs)"

text \<open>
  Every column of a row but \<open>active\<close>.
\<close>

definition unflagged :: "store_row \<Rightarrow> nat \<times> pyval \<times> string option" where
  "unflagged r = (row_id r, address r, appfolio_id r)"

text \<open>
  The truth value of \<open>active\<close> in the row that the index holds for the id \<open>k\<close>, and what
  one call does to it.
\<close>

definition act :: "store_row list \<Rightarrow> string \<Rightarrow> bool option" where
  "act rows k = map_option (\<lambda>r. truthy (active r)) (lookup_last k rows)"

fun act_step :: "string \<Rightarrow> bool option \<Rightarrow> operation \<Rightarrow> bool option" where
  "act_step k v (Insert a addr) = (if a = k then Some True else v)"
| "act_step k v (SetActive a b) = (if a = k then map_option (\<lambda>_. b) v else v)"

section \<open>Concrete inputs\<close>

text \<open>
  Small datasets on which the theorems are instantiated.
\<close>

text \<open>
  A network on which every write succeeds, and one on which only the first write fails.
\<close>

definition all_ok :: "nat \<Rightarrow> bool" where
  "all_ok n = True"

definition fail_first :: "nat \<Rightarrow> bool" where
  "fail_first n = (n \<noteq> 0)"






definition prop_without_id :: appfolio_prop where
  "prop_without_id = \<lparr>property_id = None, property_address = Some ''12 Elm St''\<rparr>"

definition prop_seven :: appfolio_prop where
  "prop_seven = \<lparr>property_id = Some (PInt 7), property_address = Some '' 1 Oak Ave ''\<rparr>"

definition prop_blank :: appfolio_prop where
  "prop_blank = \<lparr>property_id = Some (PStr ''A''), property_address = Some ''  ''\<rparr>"

definition prop_c :: appfolio_prop where
  "prop_c = \<lparr>property_id = Some (PStr ''C''), property_address = Some ''3 Pine Rd''\<rparr>"

definition prop_a_renamed :: appfolio_prop where
  "prop_a_renamed = \<lparr>property_id = Some (PStr ''A''), property_address = Some ''9 New Name Rd''\<rparr>"

definition row_a :: store_row where
  "row_a = \<lparr>row_id = 1, address = PStr ''1 Main St'', appfolio_id = Some ''A'', active = PBool True\<rparr>"

definition row_b :: store_row where
  "row_b = \<lparr>row_id = 2, address = PStr ''2 Elm St'', appfolio_id = Some ''B'', active = PBool False\<rparr>"

definition row_seven :: store_row where
  "row_seven = \<lparr>row_id = 3, address = PStr ''1 Oak Ave'', appfolio_id = Some ''7'', active = PBool False\<rparr>"

definition row_null :: store_row where
  "row_null = \<lparr>row_id = 4, address = PStr ''4 Null Ct'', appfolio_id = None, active = PBool True\<rparr>"

definition row_empty :: store_row where
  "row_empty = \<lparr>row_id = 5, address = PStr ''5 Void Ln'', appfolio_id = Some [], active = PBool True\<rparr>"

section \<open>Lemmas\<close>

subsection \<open>The requests and the set of ids of a run\<close>

lemma requests_process_prop:
  "requests (process_prop net idx st prop) = requests st @ map request_of (prop_ops idx prop)"
  by (simp add: process_prop_def prop_ops_def valid_prop_def Let_def insert_property_def
      update_property_status_def split: option.split)

lemma appfolio_ids_process_prop:
  "appfolio_ids (process_prop net idx st prop) =
     appfolio_ids st \<union> (if valid_prop prop then {prop_appfolio_id prop} else {})"
  by (simp add: process_prop_def valid_prop_def Let_def insert_property_def
      update_property_status_def split: option.split)

lemma requests_first_loop:
  "requests (foldl (process_prop net idx) st props) =
     requests st @ map request_of (concat (map (prop_ops idx) props))"
  by (induction props arbitrary: st) (simp_all add: requests_process_prop)

lemma appfolio_ids_first_loop:
  "appfolio_ids (foldl (process_prop net idx) st props) = appfolio_ids st \<union> valid_ids props"
  by (induction props arbitrary: st) (auto simp: appfolio_ids_process_prop valid_ids_def)

lemma requests_deactivate_item:
  "requests (deactivate_item net st item) =
     requests st @ map request_of (item_ops (appfolio_ids st) item)"
  by (simp add: deactivate_item_def item_ops_def update_property_status_def)

lemma appfolio_ids_deactivate_item:
  "appfolio_ids (deactivate_item net st item) = appfolio_ids st"
  by (simp add: deactivate_item_def update_property_status_def)

lemma appfolio_ids_second_loop:
  "appfolio_ids (foldl (deactivate_item net) st items) = appfolio_ids st"
  by (induction items arbitrary: st) (simp_all add: appfolio_ids_deactivate_item)

lemma requests_second_loop:
  "requests (foldl (deactivate_item net) st items) =
     requests st @ map request_of (concat (map (item_ops (appfolio_ids st)) items))"
  by (induction items arbitrary: st)
     (simp_all add: requests_deactivate_item appfolio_ids_deactivate_item)

lemma requests_reconcile:
  "requests (reconcile net props idx) = map request_of (planned_ops props idx)"
  by (simp add: reconcile_def planned_ops_def requests_second_loop requests_first_loop
      appfolio_ids_first_loop init_state_def)

lemma appfolio_ids_reconcile:
  "appfolio_ids (reconcile net props idx) = valid_ids props"
  by (simp add: reconcile_def appfolio_ids_second_loop appfolio_ids_first_loop init_state_def)

subsection \<open>The counters\<close>

lemma write_failures_same [simp]: "write_failures net m m = 0"
  by (simp add: write_failures_def)

lemma write_failures_Suc:
  "write_failures net m (Suc m) = (if net m then 0 else 1)"
  by (simp add: write_failures_def)

lemma write_failures_split:
  "a \<le> b \<Longrightarrow> b \<le> c \<Longrightarrow>
     write_failures net a b + write_failures net b c = write_failures net a c"
proof -
  assume "a \<le> b" "b \<le> c"
  then have "[a..<c] = [a..<b] @ [b..<c]"
    by (metis le_Suc_ex upt_add_eq_append)
  then show ?thesis by (simp add: write_failures_def)
qed

lemma length_requests_process_prop:
  "length (requests st) \<le> length (requests (process_prop net idx st prop))"
  by (simp add: requests_process_prop)

lemma length_requests_deactivate_item:
  "length (requests st) \<le> length (requests (deactivate_item net st item))"
  by (simp add: requests_deactivate_item)

lemma length_requests_first_loop:
  "length (requests st) \<le> length (requests (foldl (process_prop net idx) st props))"
  by (simp add: requests_first_loop)

lemma length_requests_second_loop:
  "length (requests st) \<le> length (requests (foldl (deactivate_item net) st items))"
  by (simp add: requests_second_loop)

lemma errors_process_prop:
  "errors (process_prop net idx st prop) =
     errors st + write_failures net (length (requests st))
       (length (requests (process_prop net idx st prop)))"
  by (simp add: process_prop_def Let_def insert_property_def update_property_status_def
      write_failures_Suc split: option.split)

lemma errors_deactivate_item:
  "errors (deactivate_item net st item) =
     errors st + write_failures net (length (requests st))
       (length (requests (deactivate_item net st item)))"
  by (simp add: deactivate_item_def update_property_status_def write_failures_Suc)

lemma errors_first_loop:
  "errors (foldl (process_prop net idx) st props) =
     errors st + write_failures net (length (requests st))
       (length (requests (foldl (process_prop net idx) st props)))"
proof (induction props arbitrary: st)
  case Nil
  show ?case by simp
next
  case (Cons p props)
  let ?st1 = "process_prop net idx st p"
  have "write_failures net (length (requests st)) (length (requests ?st1))
        + write_failures net (length (requests ?st1))
            (length (requests (foldl (process_prop net idx) ?st1 props)))
      = write_failures net (length (requests st))
            (length (requests (foldl (process_prop net idx) ?st1 props)))"
    by (rule write_failures_split)
       (rule length_requests_process_prop, rule length_requests_first_loop)
  then show ?case
    using Cons.IH [of ?st1] errors_process_prop [of net idx st p] by simp
qed

lemma errors_second_loop:
  "errors (foldl (deactivate_item net) st items) =
     errors st + write_failures net (length (requests st))
       (length (requests (foldl (deactivate_item net) st items)))"
proof (induction items arbitrary: st)
  case Nil
  show ?case by simp
next
  case (Cons item items)
  let ?st1 = "deactivate_item net st item"
  have "write_failures net (length (requests st)) (length (requests ?st1))
        + write_failures net (length (requests ?st1))
            (length (requests (foldl (deactivate_item net) ?st1 items)))
      = write_failures net (length (requests st))
            (length (requests (foldl (deactivate_item net) ?st1 items)))"
    by (rule write_failures_split)
       (rule length_requests_deactivate_item, rule length_requests_second_loop)
  then show ?case
    using Cons.IH [of ?st1] errors_deactivate_item [of net st item] by simp
qed

lemma errors_reconcile:
  "errors (reconcile net props idx) =
     write_failures net 0 (length (requests (reconcile net props idx)))"
proof -
  let ?st1 = "foldl (process_prop net idx) init_state props"
  have a: "errors ?st1 = write_failures net 0 (length (requests ?st1))"
    using errors_first_loop [of net idx init_state props] by (simp add: init_state_def)
  have b: "write_failures net 0 (length (requests ?st1))
        + write_failures net (length (requests ?st1))
            (length (requests (foldl (deactivate_item net) ?st1 idx)))
      = write_failures net 0 (length (requests (foldl (deactivate_item net) ?st1 idx)))"
    by (rule write_failures_split) (simp, rule length_requests_second_loop)
  show ?thesis
    using a b errors_second_loop [of net ?st1 idx] by (simp add: reconcile_def)
qed

lemma counted_process_prop:
  "writes_counted (process_prop net idx st prop) + length (requests st) =
     writes_counted st + length (requests (process_prop net idx st prop))"
  by (simp add: process_prop_def Let_def insert_property_def update_property_status_def
      writes_counted_def split: option.split)

lemma counted_deactivate_item:
  "writes_counted (deactivate_item net st item) + length (requests st) =
     writes_counted st + length (requests (deactivate_item net st item))"
  by (simp add: deactivate_item_def update_property_status_def writes_counted_def)

lemma counted_first_loop:
  "writes_counted (foldl (process_prop net idx) st props) + length (requests st) =
     writes_counted st + length (requests (foldl (process_prop net idx) st props))"
proof (induction props arbitrary: st)
  case Nil
  show ?case by simp
next
  case (Cons p props)
  show ?case
    using Cons.IH [of "process_prop net idx st p"] counted_process_prop [of net idx st p]
    by simp
qed

lemma counted_second_loop:
  "writes_counted (foldl (deactivate_item net) st items) + length (requests st) =
     writes_counted st + length (requests (foldl (deactivate_item net) st items))"
proof (induction items arbitrary: st)
  case Nil
  show ?case by simp
next
  case (Cons item items)
  show ?case
    using Cons.IH [of "deactivate_item net st item"] counted_deactivate_item [of net st item]
    by simp
qed

lemma counted_reconcile:
  "writes_counted (reconcile net props idx) = length (requests (reconcile net props idx))"
  using counted_second_loop [of net "foldl (process_prop net idx) init_state props" idx]
        counted_first_loop [of net idx init_state props]
  by (simp add: reconcile_def init_state_def writes_counted_def)

lemma unchanged_process_prop:
  "unchanged (process_prop net idx st prop) =
     unchanged st + (if valid_prop prop \<and> prop_ops idx prop = [] then 1 else 0)"
  by (simp add: process_prop_def Let_def insert_property_def update_property_status_def
      valid_prop_def prop_ops_def split: option.split)

lemma unchanged_first_loop:
  "unchanged (foldl (process_prop net idx) st props) =
     unchanged st + length (filter (\<lambda>p. valid_prop p \<and> prop_ops idx p = []) props)"
  by (induction props arbitrary: st) (simp_all add: unchanged_process_prop)

lemma unchanged_deactivate_item:
  "unchanged (deactivate_item net st item) = unchanged st"
  by (simp add: deactivate_item_def update_property_status_def)

lemma unchanged_second_loop:
  "unchanged (foldl (deactivate_item net) st items) = unchanged st"
  by (induction items arbitrary: st) (simp_all add: unchanged_deactivate_item)

lemma unchanged_reconcile:
  "unchanged (reconcile net props idx) =
     length (filter (\<lambda>p. valid_prop p \<and> prop_ops idx p = []) props)"
  by (simp add: reconcile_def unchanged_second_loop unchanged_first_loop init_state_def)

subsection \<open>Which operations are planned\<close>

lemma Insert_in_prop_ops:
  "Insert k addr \<in> set (prop_ops idx p) \<longleftrightarrow>
     valid_prop p \<and> prop_appfolio_id p = k \<and> prop_address p = addr \<and> map_of idx k = None"
  by (auto simp: prop_ops_def split: option.splits)

lemma SetActive_in_prop_ops:
  "SetActive k b \<in> set (prop_ops idx p) \<longleftrightarrow>
     b \<and> valid_prop p \<and> prop_appfolio_id p = k \<and>
     (\<exists>e. map_of idx k = Some e \<and> \<not> truthy (active e))"
  by (auto simp: prop_ops_def split: option.splits)

lemma Insert_in_item_ops: "Insert k addr \<notin> set (item_ops S item)"
  by (simp add: item_ops_def)

lemma SetActive_in_item_ops:
  "SetActive k b \<in> set (item_ops S item) \<longleftrightarrow>
     \<not> b \<and> fst item = k \<and> k \<notin> S \<and> truthy (active (snd item))"
  by (auto simp: item_ops_def)

lemma Insert_planned:
  "Insert k addr \<in> set (planned_ops props idx) \<longleftrightarrow>
     map_of idx k = None \<and>
     (\<exists>p \<in> set props. valid_prop p \<and> prop_appfolio_id p = k \<and> prop_address p = addr)"
  by (auto simp: planned_ops_def Insert_in_prop_ops Insert_in_item_ops)

lemma Reactivate_planned:
  "SetActive k True \<in> set (planned_ops props idx) \<longleftrightarrow>
     k \<in> valid_ids props \<and> (\<exists>e. map_of idx k = Some e \<and> \<not> truthy (active e))"
  by (auto simp: planned_ops_def SetActive_in_prop_ops SetActive_in_item_ops valid_ids_def)

lemma Deactivate_planned:
  "SetActive k False \<in> set (planned_ops props idx) \<longleftrightarrow>
     k \<notin> valid_ids props \<and> (\<exists>e. (k, e) \<in> set idx \<and> truthy (active e))"
  by (force simp: planned_ops_def SetActive_in_prop_ops SetActive_in_item_ops)

lemma request_of_inject [simp]: "request_of a = request_of b \<longleftrightarrow> a = b"
  by (cases a; cases b) (auto simp: insert_request_def update_request_def)

lemma inj_request_of: "inj request_of"
  by (rule injI) simp

lemma update_request_in_requests:
  "update_request k b \<in> set (requests (reconcile net props idx)) \<longleftrightarrow>
     SetActive k b \<in> set (planned_ops props idx)"
proof -
  have "update_request k b = request_of (SetActive k b)" by simp
  then show ?thesis
    unfolding requests_reconcile set_map by (metis inj_image_mem_iff inj_request_of)
qed

lemma insert_request_in_requests:
  "insert_request k addr \<in> set (requests (reconcile net props idx)) \<longleftrightarrow>
     Insert k addr \<in> set (planned_ops props idx)"
proof -
  have "insert_request k addr = request_of (Insert k addr)" by simp
  then show ?thesis
    unfolding requests_reconcile set_map by (metis inj_image_mem_iff inj_request_of)
qed

lemma is_insert_for_request_of:
  "is_insert_for k (request_of op) \<longleftrightarrow> (\<exists>addr. op = Insert k addr)"
  by (cases op) (auto simp: is_insert_for_def insert_request_def update_request_def)

subsection \<open>How often an operation is planned\<close>

lemma count_list_map_inj:
  "inj f \<Longrightarrow> count_list (map f xs) (f x) = count_list xs x"
  by (induction xs) (auto dest: injD)

lemma count_update_request:
  "count_list (requests (reconcile net props idx)) (update_request k b) =
     count_list (planned_ops props idx) (SetActive k b)"
proof -
  have "count_list (map request_of (planned_ops props idx)) (request_of (SetActive k b)) =
        count_list (planned_ops props idx) (SetActive k b)"
    by (rule count_list_map_inj) (rule inj_request_of)
  then show ?thesis by (simp add: requests_reconcile)
qed

lemma count_SetActive_first_loop:
  "count_list (concat (map (prop_ops idx) props)) (SetActive k b) =
     (if b \<and> (\<exists>e. map_of idx k = Some e \<and> \<not> truthy (active e))
      then length (filter (\<lambda>p. valid_prop p \<and> prop_appfolio_id p = k) props) else 0)"
  by (induction props) (auto simp: prop_ops_def split: option.splits)

lemma count_SetActive_second_loop:
  "count_list (concat (map (item_ops S) items)) (SetActive k b) =
     (if \<not> b \<and> k \<notin> S
      then length (filter (\<lambda>item. fst item = k \<and> truthy (active (snd item))) items) else 0)"
  by (induction items) (auto simp: item_ops_def)


lemma insert_count_ops:
  "length (filter (is_insert_for k) (map request_of ops)) =
     length (filter (\<lambda>op. \<exists>addr. op = Insert k addr) ops)"
  by (induction ops) (simp_all add: is_insert_for_request_of)

lemma insert_count_first_loop:
  "length (filter (\<lambda>op. \<exists>addr. op = Insert k addr) (concat (map (prop_ops idx) props))) =
     (if map_of idx k = None
      then length (filter (\<lambda>p. valid_prop p \<and> prop_appfolio_id p = k) props) else 0)"
  by (induction props) (auto simp: prop_ops_def split: option.splits)

lemma insert_count_second_loop:
  "filter (\<lambda>op. \<exists>addr. op = Insert k addr) (concat (map (item_ops S) items)) = []"
  by (induction items) (auto simp: item_ops_def)

lemma insert_count_reconcile:
  "length (filter (is_insert_for k) (requests (reconcile net props idx))) =
     (if map_of idx k = None
      then length (filter (\<lambda>p. valid_prop p \<and> prop_appfolio_id p = k) props) else 0)"
proof -
  have "length (filter (is_insert_for k) (requests (reconcile net props idx))) =
        length (filter (\<lambda>op. \<exists>addr. op = Insert k addr) (planned_ops props idx))"
    by (simp only: requests_reconcile insert_count_ops)
  also have "\<dots> = length (filter (\<lambda>op. \<exists>addr. op = Insert k addr)
                       (concat (map (prop_ops idx) props)))"
    by (simp add: planned_ops_def insert_count_second_loop)
  finally show ?thesis by (simp only: insert_count_first_loop)
qed

lemma reactivate_count_reconcile:
  "count_list (requests (reconcile net props idx)) (update_request k True) =
     (if \<exists>e. map_of idx k = Some e \<and> \<not> truthy (active e)
      then length (filter (\<lambda>p. valid_prop p \<and> prop_appfolio_id p = k) props) else 0)"
  by (simp add: count_update_request planned_ops_def count_SetActive_first_loop
      count_SetActive_second_loop)

lemma deactivate_count_reconcile:
  "count_list (requests (reconcile net props idx)) (update_request k False) =
     (if k \<notin> valid_ids props
      then length (filter (\<lambda>item. fst item = k \<and> truthy (active (snd item))) idx) else 0)"
  by (simp add: count_update_request planned_ops_def count_SetActive_first_loop
      count_SetActive_second_loop)

subsection \<open>The index\<close>

lemma distinct_indexed_step:
  "distinct (map fst d) \<Longrightarrow> distinct (map fst (indexed_step d p))"
  by (simp add: indexed_step_def distinct_update split: option.split)

lemma distinct_foldl_indexed_step:
  "distinct (map fst d) \<Longrightarrow> distinct (map fst (foldl indexed_step d rows))"
  by (induction rows arbitrary: d) (simp_all add: distinct_indexed_step)

lemma distinct_indexed: "distinct (map fst (indexed rows))"
  by (simp add: indexed_def distinct_foldl_indexed_step)

lemma map_of_indexed_step:
  "map_of (indexed_step d p) k =
     (if k \<noteq> [] \<and> appfolio_id p = Some k then Some p else map_of d k)"
  by (auto simp: indexed_step_def update_conv' split: option.split)

lemma map_of_foldl_indexed_step:
  "map_of (foldl indexed_step d rows) k =
     (if k = [] then map_of d k
      else case lookup_last k rows of Some r \<Rightarrow> Some r | None \<Rightarrow> map_of d k)"
  by (induction rows arbitrary: d) (auto simp: map_of_indexed_step split: option.splits)

lemma map_of_indexed:
  "map_of (indexed rows) k = (if k = [] then None else lookup_last k rows)"
  by (simp add: indexed_def map_of_foldl_indexed_step split: option.split)

lemma lookup_last_Some:
  "lookup_last k rows = Some r \<Longrightarrow> r \<in> set rows \<and> appfolio_id r = Some k"
  by (induction rows) (auto split: option.splits if_splits)

lemma lookup_last_None:
  "lookup_last k rows = None \<longleftrightarrow> (\<forall>r \<in> set rows. appfolio_id r \<noteq> Some k)"
  by (induction rows) (auto split: option.splits)

lemma lookup_last_snoc:
  "lookup_last k (rows @ [r]) = (if appfolio_id r = Some k then Some r else lookup_last k rows)"
  by (induction rows) (auto split: option.splits)

lemma lookup_last_map:
  "(\<And>r. appfolio_id (f r) = appfolio_id r) \<Longrightarrow>
     lookup_last k (map f rows) = map_option f (lookup_last k rows)"
  by (induction rows) (auto split: option.splits)

lemma indexed_item_iff:
  "(k, r) \<in> set (indexed rows) \<longleftrightarrow> k \<noteq> [] \<and> lookup_last k rows = Some r"
proof -
  have "(k, r) \<in> set (indexed rows) \<longleftrightarrow> map_of (indexed rows) k = Some r"
    using distinct_indexed [of rows] by simp
  then show ?thesis by (simp add: map_of_indexed)
qed

subsection \<open>The store\<close>

lemma store_apply_insert:
  "store_apply rows (insert_request a addr) =
     rows @ [\<lparr>row_id = Suc (foldl max 0 (map row_id rows)), address = PStr addr,
              appfolio_id = Some a, active = PBool True\<rparr>]"
  by (simp add: insert_request_def set_column_def new_row_def)

lemma store_apply_update:
  "store_apply rows (update_request a b) =
     map (\<lambda>r. if appfolio_id r = Some a then r\<lparr>active := PBool b\<rparr> else r) rows"
  by (auto simp: update_request_def set_column_def row_matches_def split: option.splits)

lemma act_store_apply:
  "act (store_apply rows (request_of op)) k = act_step k (act rows k) op"
proof (cases op)
  case (Insert a addr)
  then show ?thesis
    by (simp add: store_apply_insert act_def lookup_last_snoc)
next
  case (SetActive a b)
  have "lookup_last k (map (\<lambda>r. if appfolio_id r = Some a then r\<lparr>active := PBool b\<rparr> else r) rows)
        = map_option (\<lambda>r. if appfolio_id r = Some a then r\<lparr>active := PBool b\<rparr> else r)
            (lookup_last k rows)"
    by (rule lookup_last_map) simp
  then show ?thesis
    using SetActive
    by (cases "lookup_last k rows")
       (auto simp: store_apply_update act_def dest: lookup_last_Some)
qed

lemma act_foldl_store_apply:
  "act (foldl store_apply rows (map request_of ops)) k = foldl (act_step k) (act rows k) ops"
  by (induction ops arbitrary: rows) (simp_all add: act_store_apply)

lemma write_failures_Cons:
  "m < n \<Longrightarrow> write_failures net m n = (if net m then 0 else 1) + write_failures net (Suc m) n"
  by (simp add: write_failures_def upt_conv_Cons)

lemma succeeded_enumerate:
  "write_failures net n (n + length reqs) = 0 \<Longrightarrow>
     map snd (filter (\<lambda>ir. net (fst ir)) (enumerate n reqs)) = reqs"
proof (induction reqs arbitrary: n)
  case Nil
  show ?case by simp
next
  case (Cons r reqs)
  have "write_failures net n (n + length (r # reqs)) =
        (if net n then 0 else 1) + write_failures net (Suc n) (Suc n + length reqs)"
    using write_failures_Cons [of n "n + length (r # reqs)" net] by simp
  with Cons.prems have "net n" and "write_failures net (Suc n) (Suc n + length reqs) = 0"
    by (auto split: if_splits)
  with Cons.IH [of "Suc n"] show ?case by simp
qed

lemma succeeded_all:
  "write_failures net 0 (length reqs) = 0 \<Longrightarrow> succeeded net reqs = reqs"
  using succeeded_enumerate [of net 0 reqs] by (simp add: succeeded_def)

subsection \<open>The active flag after a run\<close>

lemma act_fold_positive:
  "SetActive k False \<notin> set ops \<Longrightarrow>
     foldl (act_step k) v ops =
       (if \<exists>addr. Insert k addr \<in> set ops then Some True
        else if SetActive k True \<in> set ops then map_option (\<lambda>_. True) v else v)"
proof (induction ops arbitrary: v)
  case Nil
  show ?case by simp
next
  case (Cons op ops)
  have ih: "foldl (act_step k) (act_step k v op) ops =
       (if \<exists>addr. Insert k addr \<in> set ops then Some True
        else if SetActive k True \<in> set ops then map_option (\<lambda>_. True) (act_step k v op)
        else act_step k v op)"
    by (rule Cons.IH) (use Cons.prems in simp)
  show ?case
  proof (cases op)
    case (Insert a addr)
    with ih show ?thesis by auto
  next
    case (SetActive a b)
    with ih Cons.prems show ?thesis by (cases v; cases b) auto
  qed
qed

lemma act_fold_negative:
  "(\<And>addr. Insert k addr \<notin> set ops) \<Longrightarrow> SetActive k True \<notin> set ops \<Longrightarrow>
     foldl (act_step k) v ops =
       (if SetActive k False \<in> set ops then map_option (\<lambda>_. False) v else v)"
proof (induction ops arbitrary: v)
  case Nil
  show ?case by simp
next
  case (Cons op ops)
  have ih: "foldl (act_step k) (act_step k v op) ops =
       (if SetActive k False \<in> set ops then map_option (\<lambda>_. False) (act_step k v op)
        else act_step k v op)"
    by (rule Cons.IH) (use Cons.prems in auto)
  show ?case
  proof (cases op)
    case (Insert a addr)
    with ih Cons.prems(1) [of addr] show ?thesis by auto
  next
    case (SetActive a b)
    with ih Cons.prems(2) show ?thesis by (cases v; cases b) auto
  qed
qed

subsection \<open>The second run\<close>

lemma valid_ids_nonempty: "k \<in> valid_ids props \<Longrightarrow> k \<noteq> []"
  by (auto simp: valid_ids_def valid_prop_def)

lemma act_indexed:
  "k \<noteq> [] \<Longrightarrow> act rows k = map_option (\<lambda>r. truthy (active r)) (map_of (indexed rows) k)"
  by (simp add: act_def map_of_indexed)

lemma act_after_present:
  assumes "k \<in> valid_ids props"
  shows "act (foldl store_apply rows (map request_of (planned_ops props (indexed rows)))) k
           = Some True"
proof -
  let ?idx = "indexed rows"
  let ?ops = "planned_ops props ?idx"
  have k: "k \<noteq> []" using assms by (rule valid_ids_nonempty)
  have nodeact: "SetActive k False \<notin> set ?ops"
    using assms by (simp add: Deactivate_planned)
  have fold: "foldl (act_step k) (act rows k) ?ops =
       (if \<exists>addr. Insert k addr \<in> set ?ops then Some True
        else if SetActive k True \<in> set ?ops then map_option (\<lambda>_. True) (act rows k)
        else act rows k)"
    using nodeact by (rule act_fold_positive)
  have "foldl (act_step k) (act rows k) ?ops = Some True"
  proof (cases "map_of ?idx k")
    case None
    from assms obtain p where "p \<in> set props" "valid_prop p" "prop_appfolio_id p = k"
      by (auto simp: valid_ids_def)
    with None have "Insert k (prop_address p) \<in> set ?ops"
      by (auto simp: Insert_planned)
    then show ?thesis using fold by auto
  next
    case (Some e)
    then have noins: "\<not> (\<exists>addr. Insert k addr \<in> set ?ops)"
      by (simp add: Insert_planned)
    have v: "act rows k = Some (truthy (active e))"
      using k Some by (simp add: act_indexed)
    show ?thesis
    proof (cases "truthy (active e)")
      case True
      with v noins fold show ?thesis by simp
    next
      case False
      with Some assms have "SetActive k True \<in> set ?ops"
        by (simp add: Reactivate_planned)
      with v noins fold show ?thesis by simp
    qed
  qed
  then show ?thesis by (simp add: act_foldl_store_apply)
qed

lemma act_after_absent:
  assumes "k \<notin> valid_ids props" and k: "k \<noteq> []"
  shows "act (foldl store_apply rows (map request_of (planned_ops props (indexed rows)))) k
           \<noteq> Some True"
proof -
  let ?idx = "indexed rows"
  let ?ops = "planned_ops props ?idx"
  have noins: "\<And>addr. Insert k addr \<notin> set ?ops"
    using assms(1) by (auto simp: Insert_planned valid_ids_def)
  have noreact: "SetActive k True \<notin> set ?ops"
    using assms(1) by (simp add: Reactivate_planned)
  have fold: "foldl (act_step k) (act rows k) ?ops =
       (if SetActive k False \<in> set ?ops then map_option (\<lambda>_. False) (act rows k)
        else act rows k)"
    using noins noreact by (rule act_fold_negative)
  have "foldl (act_step k) (act rows k) ?ops \<noteq> Some True"
  proof (cases "act rows k = Some True")
    case True
    then obtain e where e: "map_of ?idx k = Some e" "truthy (active e)"
      using k by (auto simp: act_indexed)
    then have "(k, e) \<in> set ?idx" by (simp add: map_of_SomeD)
    with e assms(1) have "SetActive k False \<in> set ?ops"
      by (auto simp: Deactivate_planned)
    with fold True show ?thesis by simp
  next
    case False
    with fold show ?thesis by (cases "act rows k") auto
  qed
  then show ?thesis by (simp add: act_foldl_store_apply)
qed

lemma planned_ops_second_run:
  assumes rows': "rows' = foldl store_apply rows (map request_of (planned_ops props (indexed rows)))"
  shows "planned_ops props (indexed rows') = []"
proof -
  have first: "prop_ops (indexed rows') p = []" if "p \<in> set props" for p
  proof (cases "valid_prop p")
    case False
    then show ?thesis by (simp add: prop_ops_def)
  next
    case True
    with that have mem: "prop_appfolio_id p \<in> valid_ids props"
      by (auto simp: valid_ids_def)
    then have "act rows' (prop_appfolio_id p) = Some True"
      unfolding rows' by (rule act_after_present)
    moreover have "prop_appfolio_id p \<noteq> []" using mem by (rule valid_ids_nonempty)
    ultimately obtain e where "map_of (indexed rows') (prop_appfolio_id p) = Some e"
      "truthy (active e)"
      by (auto simp: act_indexed)
    then show ?thesis by (simp add: prop_ops_def)
  qed
  have second: "item_ops (valid_ids props) item = []" if "item \<in> set (indexed rows')" for item
  proof (cases "fst item \<in> valid_ids props")
    case True
    then show ?thesis by (simp add: item_ops_def)
  next
    case False
    have k: "fst item \<noteq> []" and l: "lookup_last (fst item) rows' = Some (snd item)"
      using that indexed_item_iff [of "fst item" "snd item" rows'] by simp_all
    have "act rows' (fst item) \<noteq> Some True"
      unfolding rows' using False k by (rule act_after_absent)
    with l have "\<not> truthy (active (snd item))" by (simp add: act_def)
    then show ?thesis by (simp add: item_ops_def)
  qed
  show ?thesis
    using first second by (simp add: planned_ops_def)
qed

lemma requests_empty_counters:
  assumes "requests (reconcile net props idx) = []"
  shows "added (reconcile net props idx) = 0 \<and> reactivated (reconcile net props idx) = 0 \<and>
         deactivated (reconcile net props idx) = 0 \<and> errors (reconcile net props idx) = 0"
  using counted_reconcile [of net props idx] assms by (simp add: writes_counted_def)

lemma prop_ops_empty_of_planned:
  "planned_ops props idx = [] \<Longrightarrow> p \<in> set props \<Longrightarrow> prop_ops idx p = []"
  by (auto simp: planned_ops_def)

lemmas run_defs = reconcile_def indexed_def indexed_step_def process_prop_def deactivate_item_def
  prop_appfolio_id_def prop_address_def strip_def isspace_def init_state_def insert_property_def
  update_property_status_def Let_def str_int_def digit_char_def all_ok_def

subsection \<open>Evaluation and small facts\<close>

lemma process_prop_skip:
  "prop_appfolio_id prop = [] \<or> prop_address prop = [] \<Longrightarrow> process_prop net idx st prop = st"
  by (auto simp: process_prop_def)

subsection \<open>The three sets of ids\<close>

lemma insert_ids_reconcile:
  "k \<in> insert_ids (requests (reconcile net props idx)) \<longleftrightarrow>
     (\<exists>addr. Insert k addr \<in> set (planned_ops props idx))"
  by (auto simp: insert_ids_def requests_reconcile is_insert_for_request_of)

lemma reactivate_ids_reconcile:
  "k \<in> reactivate_ids (requests (reconcile net props idx)) \<longleftrightarrow>
     SetActive k True \<in> set (planned_ops props idx)"
  by (simp add: reactivate_ids_def update_request_in_requests)

lemma deactivate_ids_reconcile:
  "k \<in> deactivate_ids (requests (reconcile net props idx)) \<longleftrightarrow>
     SetActive k False \<in> set (planned_ops props idx)"
  by (simp add: deactivate_ids_def update_request_in_requests)

subsection \<open>Exit status\<close>

















subsection \<open>What a run leaves alone in the store\<close>

lemma store_apply_frame:
  "length rows \<le> length (store_apply rows (request_of op)) \<and>
   map unflagged (take (length rows) (store_apply rows (request_of op))) = map unflagged rows"
proof (cases op)
  case (Insert a addr)
  then show ?thesis by (simp add: store_apply_insert)
next
  case (SetActive a b)
  then show ?thesis by (simp add: store_apply_update unflagged_def)
qed

lemma foldl_store_apply_frame:
  "length rows \<le> length (foldl store_apply rows (map request_of ops)) \<and>
   map unflagged (take (length rows) (foldl store_apply rows (map request_of ops))) =
     map unflagged rows"
proof (induction ops arbitrary: rows)
  case Nil
  show ?case by simp
next
  case (Cons op ops)
  let ?rows1 = "store_apply rows (request_of op)"
  let ?end = "foldl store_apply ?rows1 (map request_of ops)"
  have s: "length rows \<le> length ?rows1"
    and f: "map unflagged (take (length rows) ?rows1) = map unflagged rows"
    using store_apply_frame [of rows op] by simp_all
  have l: "length ?rows1 \<le> length ?end"
    and g: "map unflagged (take (length ?rows1) ?end) = map unflagged ?rows1"
    using Cons.IH [of ?rows1] by simp_all
  have "take (length rows) (map unflagged ?end) =
        take (length rows) (take (length ?rows1) (map unflagged ?end))"
    using s by (simp add: min_def)
  also have "\<dots> = take (length rows) (map unflagged ?rows1)"
    using g by (simp add: take_map)
  also have "\<dots> = map unflagged rows"
    using f by (simp add: take_map)
  finally have "map unflagged (take (length rows) ?end) = map unflagged rows"
    by (simp add: take_map)
  with s l show ?case by simp
qed

lemma succeeded_enumerate_ops:
  "\<exists>ops'. map snd (filter (\<lambda>ir. net (fst ir)) (enumerate n (map request_of ops))) =
     map request_of ops'"
proof (induction ops arbitrary: n)
  case Nil
  show ?case by simp
next
  case (Cons op ops)
  from Cons.IH [of "Suc n"] obtain ops' where
    "map snd (filter (\<lambda>ir. net (fst ir)) (enumerate (Suc n) (map request_of ops))) =
       map request_of ops'" ..
  then show ?case
    by (cases "net n") (auto intro: exI [of _ "op # ops'"])
qed

lemma succeeded_ops: "\<exists>ops'. succeeded net (map request_of ops) = map request_of ops'"
  unfolding succeeded_def by (rule succeeded_enumerate_ops)

lemma store_after_frame:
  "map unflagged (take (length rows)
     (store_after net rows (requests (reconcile net2 props idx)))) = map unflagged rows"
proof -
  obtain ops' where "succeeded net (requests (reconcile net2 props idx)) = map request_of ops'"
    using succeeded_ops [of net "planned_ops props idx"] by (auto simp: requests_reconcile)
  then show ?thesis
    using foldl_store_apply_frame [of rows ops'] by (simp add: store_after_def)
qed

subsection \<open>The index under the uniqueness invariant\<close>

lemma update_fresh: "k \<notin> fst ` set al \<Longrightarrow> AList.update k v al = al @ [(k, v)]"
  by (induction al) auto

lemma indexed_step_cases:
  "indexed_step d p = (if has_appfolio_id p then AList.update (key_of p) p d else d)"
  by (simp add: indexed_step_def has_appfolio_id_def key_of_def split: option.split)

lemma foldl_indexed_step_distinct:
  "distinct (map key_of (filter has_appfolio_id rows)) \<Longrightarrow>
   fst ` set d \<inter> key_of ` set (filter has_appfolio_id rows) = {} \<Longrightarrow>
   foldl indexed_step d rows = d @ map (\<lambda>r. (key_of r, r)) (filter has_appfolio_id rows)"
proof (induction rows arbitrary: d)
  case Nil
  show ?case by simp
next
  case (Cons p rows)
  show ?case
  proof (cases "has_appfolio_id p")
    case False
    with Cons show ?thesis by (simp add: indexed_step_cases)
  next
    case True
    have fresh: "key_of p \<notin> fst ` set d" using Cons.prems(2) True by auto
    have step: "indexed_step d p = d @ [(key_of p, p)]"
      using True fresh by (simp add: indexed_step_cases update_fresh)
    have "foldl indexed_step (d @ [(key_of p, p)]) rows =
          (d @ [(key_of p, p)]) @ map (\<lambda>r. (key_of r, r)) (filter has_appfolio_id rows)"
    proof (rule Cons.IH)
      show "distinct (map key_of (filter has_appfolio_id rows))"
        using Cons.prems(1) True by simp
      show "fst ` set (d @ [(key_of p, p)]) \<inter> key_of ` set (filter has_appfolio_id rows) = {}"
        using Cons.prems True by auto
    qed
    with True step show ?thesis by simp
  qed
qed

lemma keys_indexed:
  "fst ` set (indexed rows) = key_of ` set (filter has_appfolio_id rows)"
proof (rule set_eqI)
  fix k
  have "k \<in> fst ` set (indexed rows) \<longleftrightarrow> (\<exists>r. (k, r) \<in> set (indexed rows))"
    by force
  also have "\<dots> \<longleftrightarrow> k \<noteq> [] \<and> (\<exists>r. lookup_last k rows = Some r)"
    by (simp add: indexed_item_iff)
  also have "\<dots> \<longleftrightarrow> k \<noteq> [] \<and> (\<exists>r \<in> set rows. appfolio_id r = Some k)"
    using lookup_last_None [of k rows] by (cases "lookup_last k rows") simp_all
  also have "\<dots> \<longleftrightarrow> k \<in> key_of ` set (filter has_appfolio_id rows)"
  proof
    assume "k \<noteq> [] \<and> (\<exists>r \<in> set rows. appfolio_id r = Some k)"
    then obtain r where "k \<noteq> []" "r \<in> set rows" "appfolio_id r = Some k" by blast
    then have "r \<in> set (filter has_appfolio_id rows)" "key_of r = k"
      by (simp_all add: has_appfolio_id_def key_of_def)
    then show "k \<in> key_of ` set (filter has_appfolio_id rows)" by blast
  next
    assume "k \<in> key_of ` set (filter has_appfolio_id rows)"
    then obtain r where "r \<in> set rows" "has_appfolio_id r" "k = key_of r" by auto
    then show "k \<noteq> [] \<and> (\<exists>r \<in> set rows. appfolio_id r = Some k)"
      by (cases "appfolio_id r") (auto simp: has_appfolio_id_def key_of_def)
  qed
  finally show "k \<in> fst ` set (indexed rows) \<longleftrightarrow>
                k \<in> key_of ` set (filter has_appfolio_id rows)" .
qed

section \<open>The claims\<close>

subsection \<open>C1: records that are skipped\<close>

text \<open>
  Claim C1 says that a record whose id is empty or missing, or whose name is empty, is
  skipped: its id does not enter \<open>appfolio_ids\<close> and it causes no insert and no
  reactivation. Lemma \<open>process_prop_skip\<close> above shows this for an empty id and for an
  empty name. For a missing id the script behaves otherwise: \<open>prop.get("property_id")\<close>
  is \<open>None\<close>, \<open>str(None)\<close> is the text \<open>None\<close>, and the test \<open>not appfolio_id\<close> does
  not fire. On the list with the single record \<open>{"property_address": "12 Elm St"}\<close> and
  an empty store, the id \<open>None\<close> enters \<open>appfolio_ids\<close> and an insert for it is sent.
\<close>

theorem missing_id_not_skipped:
  "appfolio_ids (reconcile all_ok [prop_without_id] (indexed [])) = {''None''} \<and>
   requests (reconcile all_ok [prop_without_id] (indexed [])) =
     [insert_request ''None'' ''12 Elm St'']"
  by (simp add: run_defs prop_without_id_def)

subsection \<open>C2: inserts\<close>

text \<open>
  Claim C2, as amended: for an id \<open>k\<close> that is not a key of the store mapping, a run
  sends one insert for \<open>k\<close> per record of the AppFolio list that carries \<open>k\<close> and a name
  that is not empty after stripping; so exactly one insert when there is exactly one such
  record. The outcome of the writes does not matter.
\<close>

theorem insert_per_valid_record:
  assumes "map_of supabase_properties k = None"
  shows "length (filter (is_insert_for k) (requests (reconcile net props supabase_properties))) =
         length (filter (\<lambda>p. valid_prop p \<and> prop_appfolio_id p = k) props)"
proof -
  have "length (filter (is_insert_for k) (requests (reconcile net props supabase_properties))) =
        length (filter (\<lambda>op. \<exists>addr. op = Insert k addr) (planned_ops props supabase_properties))"
    by (simp only: requests_reconcile insert_count_ops)
  also have "\<dots> = length (filter (\<lambda>op. \<exists>addr. op = Insert k addr)
                       (concat (map (prop_ops supabase_properties) props)))"
    by (simp add: planned_ops_def insert_count_second_loop)
  also have "\<dots> = length (filter (\<lambda>p. valid_prop p \<and> prop_appfolio_id p = k) props)"
    using assms by (simp add: insert_count_first_loop)
  finally show ?thesis .
qed

text \<open>
  Claim C2, an instance: the store holds \<open>A\<close> and \<open>B\<close>, the list holds \<open>A\<close> with a blank
  name and \<open>C\<close>; one insert for \<open>C\<close> is sent.
\<close>

theorem insert_per_valid_record_witness:
  "map_of (indexed [row_a, row_b]) ''C'' = None \<and>
   length (filter (is_insert_for ''C'')
     (requests (reconcile all_ok [prop_blank, prop_c] (indexed [row_a, row_b])))) = 1"
proof -
  have h: "map_of (indexed [row_a, row_b]) ''C'' = None"
    by (simp add: run_defs row_a_def row_b_def)
  have n: "length (filter (\<lambda>p. valid_prop p \<and> prop_appfolio_id p = ''C'') [prop_blank, prop_c]) = 1"
    by (simp add: valid_prop_def run_defs prop_blank_def prop_c_def)
  show ?thesis
    using h n insert_per_valid_record [OF h, of all_ok "[prop_blank, prop_c]"] by simp
qed

text \<open>
  Claim C2 as stated (exactly one insert, also when the id occurs more than once) fails:
  the id \<open>7\<close> is not in the empty store and occurs in two records with the name
  \<open>1 Oak Ave\<close>; two inserts for \<open>7\<close> are sent, since the store mapping is not updated
  during the run.
\<close>

theorem duplicate_id_inserted_twice:
  "map_of (indexed []) ''7'' = None \<and> prop_appfolio_id prop_seven = ''7'' \<and>
   prop_address prop_seven = ''1 Oak Ave'' \<and>
   length (filter (is_insert_for ''7'')
     (requests (reconcile all_ok [prop_seven, prop_seven] (indexed [])))) = 2"
  by (simp add: run_defs prop_seven_def is_insert_for_def insert_request_def)

subsection \<open>C3: reactivations\<close>

text \<open>
  Claim C3, as amended: for an id \<open>k\<close> whose row in the store mapping has a falsy
  \<open>active\<close>, a run sends one reactivation of \<open>k\<close> per record of the AppFolio list that
  carries \<open>k\<close> and a name that is not empty after stripping; so exactly one reactivation
  when there is exactly one such record.
\<close>

theorem reactivate_per_valid_record:
  assumes "map_of supabase_properties k = Some row" and "\<not> truthy (active row)"
  shows "count_list (requests (reconcile net props supabase_properties)) (update_request k True) =
         length (filter (\<lambda>p. valid_prop p \<and> prop_appfolio_id p = k) props)"
proof -
  have "count_list (requests (reconcile net props supabase_properties)) (update_request k True) =
        count_list (planned_ops props supabase_properties) (SetActive k True)"
    by (rule count_update_request)
  also have "\<dots> = count_list (concat (map (prop_ops supabase_properties) props)) (SetActive k True)"
    by (simp add: planned_ops_def count_SetActive_second_loop)
  also have "\<dots> = length (filter (\<lambda>p. valid_prop p \<and> prop_appfolio_id p = k) props)"
    using assms by (simp add: count_SetActive_first_loop)
  finally show ?thesis .
qed

text \<open>
  Claim C3, an instance: the row of \<open>7\<close> is inactive and the list holds \<open>7\<close> once; one
  reactivation is sent.
\<close>

theorem reactivate_per_valid_record_witness:
  "map_of (indexed [row_a, row_seven]) ''7'' = Some row_seven \<and> \<not> truthy (active row_seven) \<and>
   count_list (requests (reconcile all_ok [prop_blank, prop_seven] (indexed [row_a, row_seven])))
     (update_request ''7'' True) = 1"
proof -
  have h: "map_of (indexed [row_a, row_seven]) ''7'' = Some row_seven"
    by (simp add: run_defs row_a_def row_seven_def)
  have i: "\<not> truthy (active row_seven)"
    by (simp add: row_seven_def)
  have n: "length (filter (\<lambda>p. valid_prop p \<and> prop_appfolio_id p = ''7'') [prop_blank, prop_seven]) = 1"
    by (simp add: valid_prop_def run_defs prop_blank_def prop_seven_def)
  show ?thesis
    using h i n reactivate_per_valid_record [OF h i, of all_ok "[prop_blank, prop_seven]"] by simp
qed

text \<open>
  Claim C3 as stated (exactly one reactivation, also when the id occurs more than once)
  fails: the row of \<open>7\<close> is inactive and the list holds \<open>7\<close> in two records; two
  reactivations are sent.
\<close>

theorem duplicate_id_reactivated_twice:
  "map_of (indexed [row_seven]) ''7'' = Some row_seven \<and> \<not> truthy (active row_seven) \<and>
   prop_appfolio_id prop_seven = ''7'' \<and> prop_address prop_seven = ''1 Oak Ave'' \<and>
   count_list (requests (reconcile all_ok [prop_seven, prop_seven] (indexed [row_seven])))
     (update_request ''7'' True) = 2"
  by (simp add: run_defs prop_seven_def row_seven_def update_request_def)

subsection \<open>C4: deactivations\<close>



subsection \<open>C5: a blank name counts as absent\<close>



subsection \<open>C6: idempotence\<close>

text \<open>
  Claim C6: when a run ends with no write error, and the store applies the requests of
  the run, then a second run over the same AppFolio list and the rows of the updated
  store sends no request, whatever the network would do; its counters for additions,
  reactivations, deactivations and errors are 0, and every record that passes the check
  of the first loop is counted as unchanged.
\<close>

theorem second_run_is_idle:
  assumes "errors (reconcile net props (indexed rows)) = 0"
  shows "requests (reconcile net2 props
           (indexed (store_after net rows (requests (reconcile net props (indexed rows)))))) = []
       \<and> added (reconcile net2 props
           (indexed (store_after net rows (requests (reconcile net props (indexed rows)))))) = 0
       \<and> reactivated (reconcile net2 props
           (indexed (store_after net rows (requests (reconcile net props (indexed rows)))))) = 0
       \<and> deactivated (reconcile net2 props
           (indexed (store_after net rows (requests (reconcile net props (indexed rows)))))) = 0
       \<and> errors (reconcile net2 props
           (indexed (store_after net rows (requests (reconcile net props (indexed rows)))))) = 0
       \<and> unchanged (reconcile net2 props
           (indexed (store_after net rows (requests (reconcile net props (indexed rows)))))) =
         length (filter valid_prop props)"
proof -
  let ?reqs = "requests (reconcile net props (indexed rows))"
  let ?rows' = "store_after net rows ?reqs"
  have "write_failures net 0 (length ?reqs) = 0"
    using assms by (simp add: errors_reconcile)
  then have "succeeded net ?reqs = ?reqs"
    by (rule succeeded_all)
  then have rows': "?rows' = foldl store_apply rows (map request_of (planned_ops props (indexed rows)))"
    by (simp add: store_after_def requests_reconcile)
  then have plan: "planned_ops props (indexed ?rows') = []"
    by (rule planned_ops_second_run)
  then have idle: "requests (reconcile net2 props (indexed ?rows')) = []"
    by (simp add: requests_reconcile)
  have "filter (\<lambda>p. valid_prop p \<and> prop_ops (indexed ?rows') p = []) props = filter valid_prop props"
    by (rule filter_cong) (use plan in \<open>auto simp: prop_ops_empty_of_planned\<close>)
  then have "unchanged (reconcile net2 props (indexed ?rows')) = length (filter valid_prop props)"
    by (simp add: unchanged_reconcile)
  with idle requests_empty_counters [OF idle] show ?thesis by simp
qed

text \<open>
  Claim C6, an instance: the store holds \<open>A\<close> (active) and \<open>B\<close> (inactive), the list
  holds \<open>C\<close> and \<open>7\<close>. The first run inserts \<open>C\<close> and \<open>7\<close> and deactivates \<open>A\<close>; the
  second run sends nothing and counts two records as unchanged.
\<close>

theorem second_run_is_idle_witness:
  "errors (reconcile all_ok [prop_c, prop_seven] (indexed [row_a, row_b])) = 0
   \<and> requests (reconcile all_ok [prop_c, prop_seven] (indexed [row_a, row_b])) =
       [insert_request ''C'' ''3 Pine Rd'', insert_request ''7'' ''1 Oak Ave'',
        update_request ''A'' False]
   \<and> requests (reconcile fail_first [prop_c, prop_seven]
        (indexed (store_after all_ok [row_a, row_b]
          (requests (reconcile all_ok [prop_c, prop_seven] (indexed [row_a, row_b])))))) = []
   \<and> unchanged (reconcile fail_first [prop_c, prop_seven]
        (indexed (store_after all_ok [row_a, row_b]
          (requests (reconcile all_ok [prop_c, prop_seven] (indexed [row_a, row_b])))))) = 2"
proof -
  have h: "errors (reconcile all_ok [prop_c, prop_seven] (indexed [row_a, row_b])) = 0"
    by (simp add: errors_reconcile write_failures_def all_ok_def)
  note idle = second_run_is_idle [OF h, of fail_first]
  have r: "requests (reconcile all_ok [prop_c, prop_seven] (indexed [row_a, row_b])) =
       [insert_request ''C'' ''3 Pine Rd'', insert_request ''7'' ''1 Oak Ave'',
        update_request ''A'' False]"
    by (simp add: run_defs prop_c_def prop_seven_def row_a_def row_b_def)
  have n: "length (filter valid_prop [prop_c, prop_seven]) = 2"
    by (simp add: valid_prop_def run_defs prop_c_def prop_seven_def)
  have e: "requests (reconcile fail_first [prop_c, prop_seven]
        (indexed (store_after all_ok [row_a, row_b]
          (requests (reconcile all_ok [prop_c, prop_seven] (indexed [row_a, row_b])))))) = []"
    using idle by (elim conjE)
  have "unchanged (reconcile fail_first [prop_c, prop_seven]
        (indexed (store_after all_ok [row_a, row_b]
          (requests (reconcile all_ok [prop_c, prop_seven] (indexed [row_a, row_b])))))) =
        length (filter valid_prop [prop_c, prop_seven])"
    using idle by (elim conjE)
  then have u: "unchanged (reconcile fail_first [prop_c, prop_seven]
        (indexed (store_after all_ok [row_a, row_b]
          (requests (reconcile all_ok [prop_c, prop_seven] (indexed [row_a, row_b])))))) = 2"
    unfolding n .
  from h r e u show ?thesis by (intro conjI)
qed

subsection \<open>C7: exit status and write errors\<close>




subsection \<open>C8: disjoint operation sets\<close>

text \<open>
  Claim C8: in a run, the ids that receive an insert, the ids that receive a
  reactivation and the ids that receive a deactivation are pairwise disjoint.
\<close>

theorem operation_sets_disjoint:
  "insert_ids (requests (reconcile net props idx)) \<inter>
     reactivate_ids (requests (reconcile net props idx)) = {}
   \<and> insert_ids (requests (reconcile net props idx)) \<inter>
     deactivate_ids (requests (reconcile net props idx)) = {}
   \<and> reactivate_ids (requests (reconcile net props idx)) \<inter>
     deactivate_ids (requests (reconcile net props idx)) = {}"
proof -
  have a: "k \<notin> reactivate_ids (requests (reconcile net props idx))"
    if "k \<in> insert_ids (requests (reconcile net props idx))" for k
    using that by (auto simp: insert_ids_reconcile reactivate_ids_reconcile
        Insert_planned Reactivate_planned)
  have b: "k \<notin> deactivate_ids (requests (reconcile net props idx))"
    if "k \<in> insert_ids (requests (reconcile net props idx))" for k
    using that by (auto simp: insert_ids_reconcile deactivate_ids_reconcile
        Insert_planned Deactivate_planned valid_ids_def)
  have c: "k \<notin> deactivate_ids (requests (reconcile net props idx))"
    if "k \<in> reactivate_ids (requests (reconcile net props idx))" for k
    using that by (auto simp: reactivate_ids_reconcile deactivate_ids_reconcile
        Reactivate_planned Deactivate_planned)
  show ?thesis using a b c by blast
qed

text \<open>
  Claim C8, an instance in which each of the three sets has a member.
\<close>

theorem operation_sets_disjoint_witness:
  "''C'' \<in> insert_ids (requests (reconcile all_ok [prop_c, prop_seven] (indexed [row_a, row_seven])))
   \<and> ''7'' \<in> reactivate_ids (requests (reconcile all_ok [prop_c, prop_seven] (indexed [row_a, row_seven])))
   \<and> ''A'' \<in> deactivate_ids (requests (reconcile all_ok [prop_c, prop_seven] (indexed [row_a, row_seven])))
   \<and> insert_ids (requests (reconcile all_ok [prop_c, prop_seven] (indexed [row_a, row_seven]))) \<inter>
     reactivate_ids (requests (reconcile all_ok [prop_c, prop_seven] (indexed [row_a, row_seven]))) = {}
   \<and> insert_ids (requests (reconcile all_ok [prop_c, prop_seven] (indexed [row_a, row_seven]))) \<inter>
     deactivate_ids (requests (reconcile all_ok [prop_c, prop_seven] (indexed [row_a, row_seven]))) = {}
   \<and> reactivate_ids (requests (reconcile all_ok [prop_c, prop_seven] (indexed [row_a, row_seven]))) \<inter>
     deactivate_ids (requests (reconcile all_ok [prop_c, prop_seven] (indexed [row_a, row_seven]))) = {}"
proof -
  have r: "requests (reconcile all_ok [prop_c, prop_seven] (indexed [row_a, row_seven])) =
     [insert_request ''C'' ''3 Pine Rd'', update_request ''7'' True, update_request ''A'' False]"
    by (simp add: run_defs prop_c_def prop_seven_def row_a_def row_seven_def)
  have m: "''C'' \<in> insert_ids [insert_request ''C'' ''3 Pine Rd'', update_request ''7'' True,
               update_request ''A'' False]"
    "''7'' \<in> reactivate_ids [insert_request ''C'' ''3 Pine Rd'', update_request ''7'' True,
               update_request ''A'' False]"
    "''A'' \<in> deactivate_ids [insert_request ''C'' ''3 Pine Rd'', update_request ''7'' True,
               update_request ''A'' False]"
    by (simp_all add: insert_ids_def reactivate_ids_def deactivate_ids_def is_insert_for_def
        insert_request_def update_request_def)
  show ?thesis
    using m operation_sets_disjoint [of all_ok "[prop_c, prop_seven]" "indexed [row_a, row_seven]"]
    unfolding r by simp
qed

subsection \<open>C9: frame\<close>

text \<open>
  Claim C9: the payload of a status update has the single key \<open>active\<close>; applied to the
  store, it changes only the \<open>active\<close> column, and only in rows whose \<open>appfolio_id\<close>
  is the given id. After a run, every row that the store held before still has its
  internal id, its address and its \<open>appfolio_id\<close>. An id that is in \<open>appfolio_ids\<close> and
  has an active row in the store mapping receives no request at all; the name in the
  AppFolio list plays no part in this.
\<close>

theorem set_active_frame:
  "map fst (request_payload (update_request k b)) = [''active'']
   \<and> store_apply rows (update_request k b) =
       map (\<lambda>r. if appfolio_id r = Some k then r\<lparr>active := PBool b\<rparr> else r) rows
   \<and> map unflagged (take (length rows)
        (store_after net rows (requests (reconcile net props (indexed rows))))) =
       map unflagged rows
   \<and> (k \<in> appfolio_ids (reconcile net props idx) \<and> map_of idx k = Some row \<and>
        truthy (active row) \<longrightarrow>
        filter (is_insert_for k) (requests (reconcile net props idx)) = []
        \<and> count_list (requests (reconcile net props idx)) (update_request k True) = 0
        \<and> count_list (requests (reconcile net props idx)) (update_request k False) = 0)"
proof -
  have p: "map fst (request_payload (update_request k b)) = [''active'']"
    by (simp add: request_payload_def update_request_def)
  have u: "store_apply rows (update_request k b) =
       map (\<lambda>r. if appfolio_id r = Some k then r\<lparr>active := PBool b\<rparr> else r) rows"
    by (rule store_apply_update)
  have f: "map unflagged (take (length rows)
        (store_after net rows (requests (reconcile net props (indexed rows))))) =
       map unflagged rows"
    by (rule store_after_frame)
  have n: "k \<in> appfolio_ids (reconcile net props idx) \<and> map_of idx k = Some row \<and>
        truthy (active row) \<longrightarrow>
        filter (is_insert_for k) (requests (reconcile net props idx)) = []
        \<and> count_list (requests (reconcile net props idx)) (update_request k True) = 0
        \<and> count_list (requests (reconcile net props idx)) (update_request k False) = 0"
  proof
    assume h: "k \<in> appfolio_ids (reconcile net props idx) \<and> map_of idx k = Some row \<and>
        truthy (active row)"
    have "length (filter (is_insert_for k) (requests (reconcile net props idx))) = 0"
      using h by (simp add: insert_count_reconcile)
    then have i: "filter (is_insert_for k) (requests (reconcile net props idx)) = []"
      by simp
    have r: "count_list (requests (reconcile net props idx)) (update_request k True) = 0"
      using h by (simp add: reactivate_count_reconcile)
    have d: "count_list (requests (reconcile net props idx)) (update_request k False) = 0"
      using h by (simp add: deactivate_count_reconcile appfolio_ids_reconcile)
    from i r d show "filter (is_insert_for k) (requests (reconcile net props idx)) = []
        \<and> count_list (requests (reconcile net props idx)) (update_request k True) = 0
        \<and> count_list (requests (reconcile net props idx)) (update_request k False) = 0"
      by (intro conjI)
  qed
  from p u f n show ?thesis by (intro conjI)
qed

text \<open>
  Claim C9, an instance: the store holds \<open>A\<close> at \<open>1 Main St\<close>, the list holds \<open>A\<close> at
  \<open>9 New Name Rd\<close>; no request for \<open>A\<close> is sent. A status update of \<open>B\<close> changes the
  flag of the row of \<open>B\<close> and nothing else.
\<close>

theorem set_active_frame_witness:
  "''A'' \<in> appfolio_ids (reconcile all_ok [prop_a_renamed] (indexed [row_a]))
   \<and> map_of (indexed [row_a]) ''A'' = Some row_a \<and> truthy (active row_a)
   \<and> address row_a = PStr ''1 Main St'' \<and> prop_address prop_a_renamed = ''9 New Name Rd''
   \<and> filter (is_insert_for ''A'') (requests (reconcile all_ok [prop_a_renamed] (indexed [row_a]))) = []
   \<and> count_list (requests (reconcile all_ok [prop_a_renamed] (indexed [row_a])))
        (update_request ''A'' True) = 0
   \<and> count_list (requests (reconcile all_ok [prop_a_renamed] (indexed [row_a])))
        (update_request ''A'' False) = 0
   \<and> store_apply [row_a, row_b] (update_request ''B'' True) =
        [row_a, row_b\<lparr>active := PBool True\<rparr>]"
proof -
  note one = set_active_frame [of "''A''" True "[row_a]" all_ok "[prop_a_renamed]"
      "indexed [row_a]" row_a]
  note two = set_active_frame [of "''B''" True "[row_a, row_b]" all_ok "[]" "[]" row_b]
  have s: "''A'' \<in> appfolio_ids (reconcile all_ok [prop_a_renamed] (indexed [row_a]))"
    by (simp add: appfolio_ids_reconcile valid_ids_def valid_prop_def prop_a_renamed_def
        prop_appfolio_id_def prop_address_def strip_def isspace_def)
  have m: "map_of (indexed [row_a]) ''A'' = Some row_a"
    by (simp add: indexed_def indexed_step_def row_a_def)
  have t: "truthy (active row_a)" and ad: "address row_a = PStr ''1 Main St''"
    by (simp_all add: row_a_def)
  have a: "prop_address prop_a_renamed = ''9 New Name Rd''"
    by (simp add: prop_a_renamed_def prop_address_def strip_def isspace_def)
  have i: "appfolio_id row_a \<noteq> Some ''B''" "appfolio_id row_b = Some ''B''"
    by (simp_all add: row_a_def row_b_def)
  have h: "''A'' \<in> appfolio_ids (reconcile all_ok [prop_a_renamed] (indexed [row_a])) \<and>
           map_of (indexed [row_a]) ''A'' = Some row_a \<and> truthy (active row_a)"
    using s m t by (intro conjI)
  have none: "filter (is_insert_for ''A'')
        (requests (reconcile all_ok [prop_a_renamed] (indexed [row_a]))) = []
      \<and> count_list (requests (reconcile all_ok [prop_a_renamed] (indexed [row_a])))
        (update_request ''A'' True) = 0
      \<and> count_list (requests (reconcile all_ok [prop_a_renamed] (indexed [row_a])))
        (update_request ''A'' False) = 0"
    by (rule one [THEN conjunct2, THEN conjunct2, THEN conjunct2, THEN mp, OF h])
  have "store_apply [row_a, row_b] (update_request ''B'' True) =
        map (\<lambda>r. if appfolio_id r = Some ''B'' then r\<lparr>active := PBool True\<rparr> else r)
          [row_a, row_b]"
    using two by (elim conjE)
  then have u: "store_apply [row_a, row_b] (update_request ''B'' True) =
        [row_a, row_b\<lparr>active := PBool True\<rparr>]"
    using i by simp
  from s m t ad a none u show ?thesis by (elim conjE) (intro conjI)
qed

subsection \<open>C10: the index of the store reader\<close>

text \<open>
  Claim C10: on an answer of the store, \<open>fetch_supabase_properties\<close> returns the index
  of the rows. The keys of the index are distinct and are the ids of the rows whose
  \<open>appfolio_id\<close> is neither null nor the empty string; every entry is one of these rows,
  stored under its id. Under the invariant of the data model (no two such rows share an
  id) the index is exactly the list of these rows, each under its id, in the order of
  the answer.
\<close>

theorem store_index:
  "fetch_supabase_properties (Response rows) = Inr (indexed rows)
   \<and> distinct (map fst (indexed rows))
   \<and> fst ` set (indexed rows) = key_of ` set (filter has_appfolio_id rows)
   \<and> (\<forall>k r. (k, r) \<in> set (indexed rows) \<longrightarrow>
         r \<in> set rows \<and> has_appfolio_id r \<and> appfolio_id r = Some k)
   \<and> (distinct (map key_of (filter has_appfolio_id rows)) \<longrightarrow>
         indexed rows = map (\<lambda>r. (key_of r, r)) (filter has_appfolio_id rows))"
proof -
  have a: "fetch_supabase_properties (Response rows) = Inr (indexed rows)"
    by (simp add: fetch_supabase_properties_def)
  have b: "distinct (map fst (indexed rows))"
    by (rule distinct_indexed)
  have c: "fst ` set (indexed rows) = key_of ` set (filter has_appfolio_id rows)"
    by (rule keys_indexed)
  have d: "\<forall>k r. (k, r) \<in> set (indexed rows) \<longrightarrow>
         r \<in> set rows \<and> has_appfolio_id r \<and> appfolio_id r = Some k"
  proof (intro allI impI)
    fix k r
    assume "(k, r) \<in> set (indexed rows)"
    then have "k \<noteq> []" and "lookup_last k rows = Some r"
      by (simp_all add: indexed_item_iff)
    then show "r \<in> set rows \<and> has_appfolio_id r \<and> appfolio_id r = Some k"
      using lookup_last_Some [of k rows r] by (simp add: has_appfolio_id_def)
  qed
  have e: "distinct (map key_of (filter has_appfolio_id rows)) \<longrightarrow>
         indexed rows = map (\<lambda>r. (key_of r, r)) (filter has_appfolio_id rows)"
  proof
    assume "distinct (map key_of (filter has_appfolio_id rows))"
    then show "indexed rows = map (\<lambda>r. (key_of r, r)) (filter has_appfolio_id rows)"
      using foldl_indexed_step_distinct [of rows "[]"] by (simp add: indexed_def)
  qed
  from a b c d e show ?thesis by (intro conjI)
qed

text \<open>
  Claim C10, an instance: of four rows, the one with a null id and the one with an empty
  id are left out.
\<close>

theorem store_index_witness:
  "distinct (map key_of (filter has_appfolio_id [row_a, row_null, row_empty, row_b]))
   \<and> fetch_supabase_properties (Response [row_a, row_null, row_empty, row_b]) =
       Inr [(''A'', row_a), (''B'', row_b)]"
proof -
  note s = store_index [of "[row_a, row_null, row_empty, row_b]"]
  have f: "filter has_appfolio_id [row_a, row_null, row_empty, row_b] = [row_a, row_b]"
    by (simp add: has_appfolio_id_def row_a_def row_null_def row_empty_def row_b_def)
  have k: "key_of row_a = ''A''" "key_of row_b = ''B''"
    by (simp_all add: key_of_def row_a_def row_b_def)
  have d: "distinct (map key_of (filter has_appfolio_id [row_a, row_null, row_empty, row_b]))"
    unfolding f by (simp add: k)
  have "indexed [row_a, row_null, row_empty, row_b] =
        map (\<lambda>r. (key_of r, r)) (filter has_appfolio_id [row_a, row_null, row_empty, row_b])"
    using s d by (elim conjE impE) assumption
  then have i: "indexed [row_a, row_null, row_empty, row_b] = [(''A'', row_a), (''B'', row_b)]"
    unfolding f by (simp add: k)
  have "fetch_supabase_properties (Response [row_a, row_null, row_empty, row_b]) =
        Inr (indexed [row_a, row_null, row_empty, row_b])"
    using s by (elim conjE)
  then have "fetch_supabase_properties (Response [row_a, row_null, row_empty, row_b]) =
        Inr [(''A'', row_a), (''B'', row_b)]"
    unfolding i .
  with d show ?thesis by (rule conjI)
qed

end
